theory Spec2Isabelle
  imports Main "HOL-Library.Word"
begin

section \<open>M5DialKeys: the polling loop of \<open>src/main.cpp\<close>\<close>

text \<open>
  The sketch turns a rotary encoder, a two-zone touch screen and one push button into USB
  keyboard traffic. Its whole logic is the function \<open>loop()\<close>, run again and again by the
  Arduino runtime, over six file-level variables. The embedding below keeps the variables
  in a record, passes that record through every function and returns, beside the new
  record, the list of calls made on the keyboard and on the display, in the order the
  code makes them.

  What one pass reads from the hardware and from the M5Unified library (touch detail,
  display width, encoder counter, the three button queries, \<open>millis()\<close>) is the input of
  the pass. Those libraries are not part of the sketch, so nothing is assumed about the
  values they return; where a property needs a relation between them, it is a hypothesis
  of the theorem.

  \<open>Serial\<close> diagnostics and the \<open>delay()\<close> pacing calls change neither the variables nor
  the keyboard traffic and are left out. \<open>long\<close> arithmetic on the encoder counter is
  modelled on \<open>int\<close>: signed overflow is undefined in C++, so the model describes the
  sketch as long as the counter stays in range. The \<open>uint32_t\<close> millisecond values are
  32-bit words, with the wrap-around of the unsigned subtraction.
\<close>

subsection \<open>Data\<close>

type_synonym uint32_t = "32 word"

text \<open>The key codes the sketch passes to \<open>Keyboard.press\<close> and \<open>Keyboard.release\<close>.\<close>

datatype key = KEY_ESC | KEY_DELETE | KEY_LEFT_SHIFT | KEY_RIGHT_ARROW | KEY_DOWN_ARROW

text \<open>
  One observable call: \<open>Keyboard.press(k)\<close>, \<open>Keyboard.release(k)\<close>, \<open>Keyboard.write(c)\<close>,
  or \<open>draw_keys(pressed_zone)\<close> together with the value of \<open>shift_lock\<close> it reads.
\<close>

datatype event = Press key | Release key | Write char | Draw int bool

text \<open>
  \<open>m5::touch_state_t\<close> is declared by M5Unified. The sketch tests for \<open>none\<close>,
  \<open>touch_begin\<close> and \<open>touch_end\<close> only; every other value of the enumeration (a touch
  that goes on, a hold, a flick, a drag) is \<open>touch_other\<close>.
\<close>

datatype touch_state_t = none | touch_begin | touch_end | touch_other

text \<open>The file-level variables, with the initial values of their declarations.\<close>

record state =
  prev_pos :: int
  shift_lock :: bool
  last_touch_zone :: int
  press_start_ms :: uint32_t
  last_delete_ms :: uint32_t
  delete_mode_active :: bool

text \<open>
  The reads of one pass. \<open>wasReleased()\<close> is queried up to three times in a pass, and the
  button object only changes in \<open>M5Dial.update()\<close> at the top of the pass, so it is one
  value. \<open>millis()\<close> is read at four places, and time goes on between them, so each place
  has its own reading: on a press edge (\<open>millis_press\<close>), after the first Delete
  (\<open>millis_delete\<close>), in the repeat test (\<open>millis_now\<close>) and on a release
  (\<open>millis_release\<close>).
\<close>

record input =
  touch_st :: touch_state_t
  touch_x :: int
  width :: int
  encoder :: int
  wasPressed :: bool
  wasReleased :: bool
  pressedFor3000 :: bool
  millis_press :: uint32_t
  millis_delete :: uint32_t
  millis_now :: uint32_t
  millis_release :: uint32_t

subsection \<open>Helpers\<close>

text \<open>The division of C++ on signed integers, which truncates towards zero.\<close>

definition c_div :: "int \<Rightarrow> int \<Rightarrow> int" where
  "c_div a b = (if (a < 0) = (b < 0) then \<bar>a\<bar> div \<bar>b\<bar> else - (\<bar>a\<bar> div \<bar>b\<bar>))"

definition sendEsc :: "event list" where
  "sendEsc = [Press KEY_ESC, Release KEY_ESC]"

definition sendDelete :: "event list" where
  "sendDelete = [Press KEY_DELETE, Release KEY_DELETE]"

text \<open>
  \<open>sendAsciiWithOptionalShift\<close>: with the lock set the character is written between a
  press and a release of the left Shift key, the lock is cleared and the keys are redrawn.
\<close>

definition sendAsciiWithOptionalShift :: "char \<Rightarrow> state \<Rightarrow> state \<times> event list" where
  "sendAsciiWithOptionalShift c s =
     (if shift_lock s
      then (s\<lparr>shift_lock := False\<rparr>,
            [Press KEY_LEFT_SHIFT, Write c, Release KEY_LEFT_SHIFT, Draw (- 1) False])
      else (s, [Write c]))"

text \<open>The press and release of an arrow key in the \<open>KEY_LR_MODE\<close> branch.\<close>

definition tap :: "key \<Rightarrow> event list" where
  "tap k = [Press k, Release k]"

subsection \<open>Touch\<close>

definition compute_zone :: "touch_state_t \<Rightarrow> int \<Rightarrow> int \<Rightarrow> int" where
  "compute_zone st x w =
     (if st \<noteq> none
      then (if 0 \<le> x \<and> x < w then (if x < c_div w 2 then 0 else 1) else - 1)
      else - 1)"

definition touch_phase :: "state \<Rightarrow> input \<Rightarrow> state \<times> event list" where
  "touch_phase s i =
     (let zone = compute_zone (touch_st i) (touch_x i) (width i);
          s1 = (if zone \<noteq> last_touch_zone s then s\<lparr>last_touch_zone := zone\<rparr> else s);
          e1 = (if zone \<noteq> last_touch_zone s then [Draw zone (shift_lock s)] else []);
          s2 = (if touch_st i = touch_begin
                then (if zone = 0 then s1
                      else if zone = 1 then s1\<lparr>shift_lock := \<not> shift_lock s1\<rparr>
                      else s1)
                else s1);
          e2 = (if touch_st i = touch_begin
                then (if zone = 0 then sendEsc
                      else if zone = 1 then [Draw zone (shift_lock s2)]
                      else [])
                else []);
          e3 = (if touch_st i = touch_end then [Draw (- 1) (shift_lock s2)] else [])
      in (s2, e1 @ e2 @ e3))"

subsection \<open>Encoder\<close>

text \<open>
  The body of the two \<open>for\<close> loops: \<open>c\<close> is the character of the locked branch
  (\<open>'d'\<close> to the right, \<open>'a'\<close> to the left), \<open>k\<close> the arrow key of the other branch.
\<close>

definition step_once :: "char \<Rightarrow> key \<Rightarrow> state \<Rightarrow> state \<times> event list" where
  "step_once c k s = (if shift_lock s then sendAsciiWithOptionalShift c s else (s, tap k))"

function step_loop :: "char \<Rightarrow> key \<Rightarrow> int \<Rightarrow> int \<Rightarrow> state \<Rightarrow> state \<times> event list" where
  "step_loop c k i steps s =
     (if i < steps
      then (let r = step_once c k s;
                r' = step_loop c k (i + 1) steps (fst r)
            in (fst r', snd r @ snd r'))
      else (s, []))"
  by pat_completeness auto
termination
  by (relation "measure (\<lambda>(c, k, i, steps, s). nat (steps - i))") auto

declare step_loop.simps [simp del]

definition encoder_phase :: "state \<Rightarrow> input \<Rightarrow> state \<times> event list" where
  "encoder_phase s i =
     (let curr = encoder i;
          delta = curr - prev_pos s
      in if delta \<noteq> 0
         then (if delta > 0
               then (let steps = c_div delta 4;
                         r = step_loop (CHR ''d'') KEY_RIGHT_ARROW 0 steps s
                     in ((fst r)\<lparr>prev_pos := prev_pos (fst r) + steps * 4\<rparr>, snd r))
               else (let steps = c_div (- delta) 4;
                         r = step_loop (CHR ''a'') KEY_DOWN_ARROW 0 steps s
                     in ((fst r)\<lparr>prev_pos := prev_pos (fst r) - steps * 4\<rparr>, snd r)))
         else (s, []))"

subsection \<open>Button\<close>

definition held_ms :: "state \<Rightarrow> input \<Rightarrow> uint32_t" where
  "held_ms s i = (if press_start_ms s \<noteq> 0 then millis_release i - press_start_ms s else 0)"

definition button_phase :: "state \<Rightarrow> input \<Rightarrow> state \<times> event list" where
  "button_phase s i =
     (let s1 = (if delete_mode_active s \<and> wasReleased i
                then s\<lparr>delete_mode_active := False, last_delete_ms := 0\<rparr> else s);
          s2 = (if wasPressed i then s1\<lparr>press_start_ms := millis_press i\<rparr> else s1);
          r3 = (if \<not> delete_mode_active s2 \<and> pressedFor3000 i
                then (s2\<lparr>delete_mode_active := True, last_delete_ms := millis_delete i\<rparr>,
                      sendDelete)
                else (s2, []));
          s3 = fst r3;
          r4 = (if delete_mode_active s3
                then (if \<not> wasReleased i
                      then (let now = millis_now i
                            in if now - last_delete_ms s3 \<ge> 500
                               then (s3\<lparr>last_delete_ms := now\<rparr>, sendDelete)
                               else (s3, []))
                      else (s3, []))
                else (s3, []));
          s4 = fst r4;
          r5 = (if \<not> delete_mode_active s4 \<and> wasReleased i
                then (let r = (if held_ms s4 i < 3000
                               then sendAsciiWithOptionalShift (CHR 0x0A) s4
                               else (s4, []))
                      in ((fst r)\<lparr>press_start_ms := 0\<rparr>, snd r))
                else (s4, []))
      in (fst r5, snd r3 @ snd r4 @ snd r5))"

subsection \<open>The pass and its repetition\<close>

text \<open>\<open>loop()\<close>: the touch section, then the encoder section, then the button section.\<close>

definition loop :: "state \<Rightarrow> input \<Rightarrow> state \<times> event list" where
  "loop s i =
     (let r1 = touch_phase s i;
          r2 = encoder_phase (fst r1) i;
          r3 = button_phase (fst r2) i
      in (fst r3, snd r1 @ snd r2 @ snd r3))"

text \<open>\<open>setup()\<close>: the counter is read once, the other variables keep their initial values.\<close>

definition setup_m5 :: "int \<Rightarrow> state \<times> event list" where
  "setup_m5 enc0 =
     (\<lparr>prev_pos = enc0, shift_lock = False, last_touch_zone = - 1,
       press_start_ms = 0, last_delete_ms = 0, delete_mode_active = False\<rparr>,
      [Draw (- 1) False])"

text \<open>The runtime calls \<open>loop()\<close> once per element of the list of inputs.\<close>

fun run :: "state \<Rightarrow> input list \<Rightarrow> state \<times> event list" where
  "run s [] = (s, [])"
| "run s (i # is) =
     (let r = loop s i; r' = run (fst r) is in (fst r', snd r @ snd r'))"

subsection \<open>Reading the emitted calls\<close>

text \<open>
  The calls of one emission, by kind. A step to the right is either a tap of the right
  arrow key or, under the lock, the character \<open>'d'\<close> written with Shift held; a step to
  the left is a tap of the key the left branch presses (\<open>KEY_DOWN_ARROW\<close>) or the
  character \<open>'a'\<close> with Shift held. Enter is the character \<open>'\n'\<close>, Delete and Escape are
  taps of their keys.
\<close>

definition shifted :: "char \<Rightarrow> event list" where
  "shifted c = [Press KEY_LEFT_SHIFT, Write c, Release KEY_LEFT_SHIFT, Draw (- 1) False]"

definition step_intent :: "char \<Rightarrow> key \<Rightarrow> bool \<Rightarrow> event list" where
  "step_intent c k locked = (if locked then shifted c else tap k)"

definition right_step :: "bool \<Rightarrow> event list" where
  "right_step locked = step_intent (CHR ''d'') KEY_RIGHT_ARROW locked"

definition left_step :: "bool \<Rightarrow> event list" where
  "left_step locked = step_intent (CHR ''a'') KEY_DOWN_ARROW locked"

definition enter_intent :: "bool \<Rightarrow> event list" where
  "enter_intent locked = (if locked then shifted (CHR 0x0A) else [Write (CHR 0x0A)])"

text \<open>
  The lock as seen by the steps of one batch of \<open>n\<close>: the first step sees the lock of the
  state, every later one sees it cleared.
\<close>

definition batch_flags :: "bool \<Rightarrow> nat \<Rightarrow> bool list" where
  "batch_flags locked n = (case n of 0 \<Rightarrow> [] | Suc m \<Rightarrow> locked # replicate m False)"

text \<open>Counting emissions in a list of calls: each one has a call no other kind makes.\<close>

definition enters :: "event list \<Rightarrow> nat" where
  "enters es = count_list es (Write (CHR 0x0A))"

definition deletes :: "event list \<Rightarrow> nat" where
  "deletes es = count_list es (Press KEY_DELETE)"

definition escapes :: "event list \<Rightarrow> nat" where
  "escapes es = count_list es (Press KEY_ESC)"

definition right_steps :: "event list \<Rightarrow> nat" where
  "right_steps es = count_list es (Press KEY_RIGHT_ARROW) + count_list es (Write (CHR ''d''))"

definition left_steps :: "event list \<Rightarrow> nat" where
  "left_steps es = count_list es (Press KEY_DOWN_ARROW) + count_list es (Write (CHR ''a''))"

text \<open>The keyboard calls of a list, without the redraws.\<close>

fun is_key :: "event \<Rightarrow> bool" where
  "is_key (Draw z l) = False"
| "is_key e = True"

definition keys :: "event list \<Rightarrow> event list" where
  "keys es = filter is_key es"

text \<open>
  The part of the device an emission comes from, read off the one call that marks it:
  the press of the Escape key for the touch screen, the press of an arrow key or the
  character \<open>'d'\<close> or \<open>'a'\<close> for the encoder, the press of the Delete key or the character
  \<open>'\n'\<close> for the button. Releases, the Shift key and redraws mark nothing. The two
  orders are that of the code and that of the specification's wording.
\<close>

datatype channel = Touch | Encoder | Button

fun channel_of :: "event \<Rightarrow> channel option" where
  "channel_of (Press k) =
     (if k = KEY_ESC then Some Touch
      else if k = KEY_RIGHT_ARROW \<or> k = KEY_DOWN_ARROW then Some Encoder
      else if k = KEY_DELETE then Some Button
      else None)"
| "channel_of (Release k) = None"
| "channel_of (Write c) =
     (if c = CHR ''d'' \<or> c = CHR ''a'' then Some Encoder
      else if c = CHR 0x0A then Some Button
      else None)"
| "channel_of (Draw z l) = None"

fun channels :: "event list \<Rightarrow> channel list" where
  "channels [] = []"
| "channels (e # es) = (case channel_of e of None \<Rightarrow> channels es | Some c \<Rightarrow> c # channels es)"

fun code_order :: "channel \<Rightarrow> nat" where
  "code_order Touch = 0"
| "code_order Encoder = 1"
| "code_order Button = 2"

fun spec_order :: "channel \<Rightarrow> nat" where
  "spec_order Encoder = 0"
| "spec_order Touch = 1"
| "spec_order Button = 2"

text \<open>
  The order of one pass as the specification words it: encoder steps, then touch, then
  button. It is here to be compared with \<open>loop\<close>.
\<close>

definition loop_encoder_first :: "state \<Rightarrow> input \<Rightarrow> state \<times> event list" where
  "loop_encoder_first s i =
     (let r1 = encoder_phase s i;
          r2 = touch_phase (fst r1) i;
          r3 = button_phase (fst r2) i
      in (fst r3, snd r1 @ snd r2 @ snd r3))"

subsection \<open>Button samples\<close>


definition release_edge :: "input \<Rightarrow> bool" where
  "release_edge i = (wasReleased i \<and> \<not> wasPressed i \<and> \<not> pressedFor3000 i)"




text \<open>The button section reads and writes the three button variables and the lock only.\<close>

definition button_vars :: "state \<Rightarrow> uint32_t \<times> uint32_t \<times> bool" where
  "button_vars s = (press_start_ms s, last_delete_ms s, delete_mode_active s)"

text \<open>
  Readings of \<open>millis()\<close> as numbers, one per pass: each is at least the one before
  (starting from \<open>q\<close>) and at most \<open>g\<close> later.
\<close>

fun gaps_within :: "nat \<Rightarrow> nat \<Rightarrow> nat list \<Rightarrow> bool" where
  "gaps_within g q [] = True"
| "gaps_within g q (t # ts) = (q \<le> t \<and> t \<le> q + g \<and> gaps_within g t ts)"

subsection \<open>Fixed inputs for the examples\<close>

text \<open>
  The state after \<open>setup()\<close> with the counter at 0, and a pass in which nothing
  happens: no touch on the 240 pixel wide display, the counter at 0, the button at rest.
\<close>

definition idle_input :: input where
  "idle_input =
     \<lparr>touch_st = none, touch_x = 0, width = 240, encoder = 0,
      wasPressed = False, wasReleased = False, pressedFor3000 = False,
      millis_press = 0, millis_delete = 0, millis_now = 0, millis_release = 0\<rparr>"

definition boot :: state where
  "boot = fst (setup_m5 0)"

text \<open>
  A hold of 3000 ms and 1200 ms more, seen by a pass every 100 ms: the press edge at
  1000 ms, 29 passes without a button event, the pass at 4000 ms in which the button
  object first reports the long press, eleven more passes up to 5100 ms, and the release
  edge at 5200 ms.
\<close>

definition long_hold_example :: "input list" where
  "long_hold_example =
     idle_input\<lparr>wasPressed := True, millis_press := 1000\<rparr>
     # replicate 29 idle_input
     @ [idle_input\<lparr>pressedFor3000 := True, millis_delete := 4000, millis_now := 4000\<rparr>]
     @ map (\<lambda>k. idle_input\<lparr>pressedFor3000 := True, millis_now := 4000 + 100 * of_nat k\<rparr>)
         [1..<12]
     @ [idle_input\<lparr>wasReleased := True, millis_release := 5200\<rparr>]"

text \<open>
  A press whose start is recorded late. The pass that sees the press edge at 1000 ms
  first sends three steps (two 2 ms pauses each, 12 ms in all) and reads
  \<open>millis()\<close> for \<open>press_start_ms\<close> at 1012 ms. The button object reports the long press
  in the pass at 4000 ms, the Delete takes 4 ms, and the release edge is seen in the next
  pass, at 4005 ms.
\<close>

definition late_press_start_example :: "input list" where
  "late_press_start_example =
     [idle_input\<lparr>encoder := 12, wasPressed := True, millis_press := 1012\<rparr>,
      idle_input\<lparr>encoder := 12\<rparr>,
      idle_input\<lparr>encoder := 12\<rparr>,
      idle_input\<lparr>encoder := 12, pressedFor3000 := True,
        millis_delete := 4004, millis_now := 4004\<rparr>,
      idle_input\<lparr>encoder := 12, wasReleased := True, millis_release := 4005\<rparr>]"


section \<open>Touch zones\<close>

text \<open>
  C8. The zone computed from a touch sample and the display width \<open>w\<close>: it is 0 (Escape)
  exactly when the touch is active and \<open>0 \<le> x < w/2\<close>, 1 (Shift) exactly when the touch is
  active and \<open>w/2 \<le> x < w\<close>, and -1 (none) exactly in every other case, which are the
  inactive touch and the coordinates outside \<open>[0, w)\<close>. \<open>w/2\<close> is the integer division
  of the code; no other value is ever computed.
\<close>

theorem compute_zone_classification:
  "(compute_zone st x w = 0 \<longleftrightarrow> st \<noteq> none \<and> 0 \<le> x \<and> x < c_div w 2)
   \<and> (compute_zone st x w = 1 \<longleftrightarrow> st \<noteq> none \<and> c_div w 2 \<le> x \<and> x < w)
   \<and> (compute_zone st x w = - 1 \<longleftrightarrow>
        \<not> (st \<noteq> none \<and> 0 \<le> x \<and> x < c_div w 2) \<and> \<not> (st \<noteq> none \<and> c_div w 2 \<le> x \<and> x < w))
   \<and> (compute_zone st x w = - 1 \<longleftrightarrow> st = none \<or> x < 0 \<or> w \<le> x)
   \<and> compute_zone st x w \<in> {- 1, 0, 1}"
  by (auto simp: compute_zone_def c_div_def)

section \<open>Encoder steps\<close>

subsection \<open>The step loop and the encoder section\<close>

lemma step_loop_unlocked:
  "\<not> shift_lock s \<Longrightarrow>
   step_loop c k i steps s = (s, concat (replicate (nat (steps - i)) (tap k)))"
proof (induction c k i steps s rule: step_loop.induct)
  case (1 c k i steps s)
  show ?case
  proof (cases "i < steps")
    case True
    have so: "step_once c k s = (s, tap k)" using "1.prems" by (simp add: step_once_def)
    have ih: "step_loop c k (i + 1) steps s = (s, concat (replicate (nat (steps - (i + 1))) (tap k)))"
      using "1.IH" [OF True refl] "1.prems" so by simp
    have n: "nat (steps - i) = Suc (nat (steps - (i + 1)))" using True by simp
    show ?thesis
      by (subst step_loop.simps) (simp add: True so ih n)
  next
    case False
    then show ?thesis by (subst step_loop.simps) simp
  qed
qed

lemma step_loop_locked:
  assumes "shift_lock s" "i < steps"
  shows "step_loop c k i steps s =
         (s\<lparr>shift_lock := False\<rparr>,
          shifted c @ concat (replicate (nat (steps - i) - 1) (tap k)))"
proof -
  have so: "step_once c k s = (s\<lparr>shift_lock := False\<rparr>, shifted c)"
    using assms by (simp add: step_once_def sendAsciiWithOptionalShift_def shifted_def)
  have n: "nat (steps - (i + 1)) = nat (steps - i) - 1" by simp
  show ?thesis
    by (subst step_loop.simps) (simp add: assms so step_loop_unlocked n)
qed

lemma step_loop_none: "\<not> i < steps \<Longrightarrow> step_loop c k i steps s = (s, [])"
  by (subst step_loop.simps) simp

lemma step_loop_batch:
  "step_loop c k 0 steps s =
     (s\<lparr>shift_lock := shift_lock s \<and> \<not> 0 < steps\<rparr>,
      concat (map (step_intent c k) (batch_flags (shift_lock s) (nat steps))))"
proof (cases "0 < steps")
  case True
  then obtain m where m: "nat steps = Suc m" by (cases "nat steps") auto
  show ?thesis
  proof (cases "shift_lock s")
    case True
    with \<open>0 < steps\<close> show ?thesis
      by (simp add: step_loop_locked m batch_flags_def step_intent_def)
  next
    case False
    with \<open>0 < steps\<close> show ?thesis
      by (simp add: step_loop_unlocked m batch_flags_def step_intent_def)
  qed
next
  case False
  then show ?thesis by (simp add: step_loop_none batch_flags_def)
qed


lemma length_batch_flags: "length (batch_flags b n) = n"
  by (cases n) (simp_all add: batch_flags_def)

lemma encoder_phase_right:
  assumes "0 < encoder i - prev_pos s"
  shows "encoder_phase s i =
     (s\<lparr>shift_lock := shift_lock s \<and> \<not> 0 < (encoder i - prev_pos s) div 4,
        prev_pos := prev_pos s + (encoder i - prev_pos s) div 4 * 4\<rparr>,
      concat (map right_step (batch_flags (shift_lock s) (nat ((encoder i - prev_pos s) div 4)))))"
proof -
  have d: "c_div (encoder i - prev_pos s) 4 = (encoder i - prev_pos s) div 4"
    using assms by (simp add: c_div_def)
  have r: "right_step = step_intent (CHR ''d'') KEY_RIGHT_ARROW"
    by (rule ext) (simp add: right_step_def)
  show ?thesis
    using assms by (simp add: encoder_phase_def Let_def d step_loop_batch r)
qed

lemma encoder_phase_left:
  assumes "encoder i - prev_pos s < 0"
  shows "encoder_phase s i =
     (s\<lparr>shift_lock := shift_lock s \<and> \<not> 0 < (prev_pos s - encoder i) div 4,
        prev_pos := prev_pos s - (prev_pos s - encoder i) div 4 * 4\<rparr>,
      concat (map left_step (batch_flags (shift_lock s) (nat ((prev_pos s - encoder i) div 4)))))"
proof -
  have d: "c_div (- (encoder i - prev_pos s)) 4 = (prev_pos s - encoder i) div 4"
    using assms by (simp add: c_div_def)
  have r: "left_step = step_intent (CHR ''a'') KEY_DOWN_ARROW"
    by (rule ext) (simp add: left_step_def)
  show ?thesis
    using assms d by (simp add: encoder_phase_def Let_def step_loop_batch r)
qed

lemma encoder_phase_zero:
  "encoder i - prev_pos s = 0 \<Longrightarrow> encoder_phase s i = (s, [])"
  by (simp add: encoder_phase_def)


lemmas counters = enters_def deletes_def escapes_def right_steps_def left_steps_def

lemma counters_Nil [simp]:
  "enters [] = 0" "deletes [] = 0" "escapes [] = 0" "right_steps [] = 0" "left_steps [] = 0"
  by (simp_all add: counters)

lemma counters_append [simp]:
  "enters (a @ b) = enters a + enters b"
  "deletes (a @ b) = deletes a + deletes b"
  "escapes (a @ b) = escapes a + escapes b"
  "right_steps (a @ b) = right_steps a + right_steps b"
  "left_steps (a @ b) = left_steps a + left_steps b"
  by (simp_all add: counters)

lemma counters_right_step [simp]:
  "enters (right_step b) = 0" "deletes (right_step b) = 0" "escapes (right_step b) = 0"
  "right_steps (right_step b) = 1" "left_steps (right_step b) = 0"
  by (simp_all add: counters right_step_def step_intent_def shifted_def tap_def)

lemma counters_left_step [simp]:
  "enters (left_step b) = 0" "deletes (left_step b) = 0" "escapes (left_step b) = 0"
  "right_steps (left_step b) = 0" "left_steps (left_step b) = 1"
  by (simp_all add: counters left_step_def step_intent_def shifted_def tap_def)

lemma counters_right_batch [simp]:
  "enters (concat (map right_step fs)) = 0"
  "deletes (concat (map right_step fs)) = 0"
  "escapes (concat (map right_step fs)) = 0"
  "right_steps (concat (map right_step fs)) = length fs"
  "left_steps (concat (map right_step fs)) = 0"
  by (induction fs) simp_all

lemma counters_left_batch [simp]:
  "enters (concat (map left_step fs)) = 0"
  "deletes (concat (map left_step fs)) = 0"
  "escapes (concat (map left_step fs)) = 0"
  "right_steps (concat (map left_step fs)) = 0"
  "left_steps (concat (map left_step fs)) = length fs"
  by (induction fs) simp_all

lemma encoder_phase_cases:
  obtains
    (right) "0 < encoder i - prev_pos s"
      "encoder_phase s i =
        (s\<lparr>shift_lock := shift_lock s \<and> \<not> 0 < (encoder i - prev_pos s) div 4,
           prev_pos := prev_pos s + (encoder i - prev_pos s) div 4 * 4\<rparr>,
         concat (map right_step (batch_flags (shift_lock s) (nat ((encoder i - prev_pos s) div 4)))))"
  | (left) "encoder i - prev_pos s < 0"
      "encoder_phase s i =
        (s\<lparr>shift_lock := shift_lock s \<and> \<not> 0 < (prev_pos s - encoder i) div 4,
           prev_pos := prev_pos s - (prev_pos s - encoder i) div 4 * 4\<rparr>,
         concat (map left_step (batch_flags (shift_lock s) (nat ((prev_pos s - encoder i) div 4)))))"
  | (zero) "encoder i - prev_pos s = 0" "encoder_phase s i = (s, [])"
  using encoder_phase_right [where s = s and i = i] encoder_phase_left [where s = s and i = i]
    encoder_phase_zero [where s = s and i = i]
  by (cases "encoder i - prev_pos s" "0::int" rule: linorder_cases) auto

lemma encoder_phase_frame:
  "last_touch_zone (fst (encoder_phase s i)) = last_touch_zone s"
  "press_start_ms (fst (encoder_phase s i)) = press_start_ms s"
  "last_delete_ms (fst (encoder_phase s i)) = last_delete_ms s"
  "delete_mode_active (fst (encoder_phase s i)) = delete_mode_active s"
  by (cases rule: encoder_phase_cases [where s = s and i = i]; simp)+

lemma encoder_phase_counts:
  "enters (snd (encoder_phase s i)) = 0"
  "deletes (snd (encoder_phase s i)) = 0"
  "escapes (snd (encoder_phase s i)) = 0"
  by (cases rule: encoder_phase_cases [where s = s and i = i]; simp)+

lemma encoder_phase_steps:
  "right_steps (snd (encoder_phase s i)) =
     (if 0 < encoder i - prev_pos s then nat ((encoder i - prev_pos s) div 4) else 0)"
  "left_steps (snd (encoder_phase s i)) =
     (if encoder i - prev_pos s < 0 then nat ((prev_pos s - encoder i) div 4) else 0)"
  by (cases rule: encoder_phase_cases [where s = s and i = i]; simp add: length_batch_flags)+

lemma encoder_phase_prev_pos:
  "prev_pos (fst (encoder_phase s i)) =
     prev_pos s + 4 * (int (right_steps (snd (encoder_phase s i)))
                        - int (left_steps (snd (encoder_phase s i))))"
  by (cases rule: encoder_phase_cases [where s = s and i = i]; simp add: length_batch_flags)


lemma counters_sendEsc [simp]:
  "enters sendEsc = 0" "deletes sendEsc = 0" "escapes sendEsc = 1"
  "right_steps sendEsc = 0" "left_steps sendEsc = 0"
  by (simp_all add: counters sendEsc_def)

lemma counters_sendDelete [simp]:
  "enters sendDelete = 0" "deletes sendDelete = 1" "escapes sendDelete = 0"
  "right_steps sendDelete = 0" "left_steps sendDelete = 0"
  by (simp_all add: counters sendDelete_def)

lemma counters_Draw [simp]:
  "enters (Draw z l # es) = enters es" "deletes (Draw z l # es) = deletes es"
  "escapes (Draw z l # es) = escapes es"
  "right_steps (Draw z l # es) = right_steps es" "left_steps (Draw z l # es) = left_steps es"
  by (simp_all add: counters)

lemma sendAscii_enter:
  "sendAsciiWithOptionalShift (CHR 0x0A) s = (s\<lparr>shift_lock := False\<rparr>, enter_intent (shift_lock s))"
  by (cases s) (simp add: sendAsciiWithOptionalShift_def enter_intent_def shifted_def)

lemma counters_enter_intent [simp]:
  "enters (enter_intent b) = 1" "deletes (enter_intent b) = 0" "escapes (enter_intent b) = 0"
  "right_steps (enter_intent b) = 0" "left_steps (enter_intent b) = 0"
  by (simp_all add: counters enter_intent_def shifted_def)

lemma touch_phase_frame:
  "prev_pos (fst (touch_phase s i)) = prev_pos s"
  "press_start_ms (fst (touch_phase s i)) = press_start_ms s"
  "last_delete_ms (fst (touch_phase s i)) = last_delete_ms s"
  "delete_mode_active (fst (touch_phase s i)) = delete_mode_active s"
  by (simp_all add: touch_phase_def Let_def)

lemma touch_phase_counts:
  "enters (snd (touch_phase s i)) = 0"
  "deletes (snd (touch_phase s i)) = 0"
  "right_steps (snd (touch_phase s i)) = 0"
  "left_steps (snd (touch_phase s i)) = 0"
  by (simp_all add: touch_phase_def Let_def)

lemma button_phase_frame:
  "prev_pos (fst (button_phase s i)) = prev_pos s"
  "last_touch_zone (fst (button_phase s i)) = last_touch_zone s"
  by (simp_all add: button_phase_def Let_def sendAscii_enter)

lemma button_phase_counts:
  "escapes (snd (button_phase s i)) = 0"
  "right_steps (snd (button_phase s i)) = 0"
  "left_steps (snd (button_phase s i)) = 0"
  by (simp_all add: button_phase_def Let_def sendAscii_enter)

lemma loop_steps:
  "right_steps (snd (loop s i)) =
     (if 0 < encoder i - prev_pos s then nat ((encoder i - prev_pos s) div 4) else 0)"
  "left_steps (snd (loop s i)) =
     (if encoder i - prev_pos s < 0 then nat ((prev_pos s - encoder i) div 4) else 0)"
  by (simp_all add: loop_def Let_def touch_phase_counts button_phase_counts
      encoder_phase_steps touch_phase_frame)

lemma loop_prev_pos:
  "prev_pos (fst (loop s i)) =
     prev_pos s + 4 * (int (right_steps (snd (loop s i))) - int (left_steps (snd (loop s i))))"
  using encoder_phase_prev_pos [of "fst (touch_phase s i)" i]
  by (simp add: loop_def Let_def touch_phase_counts button_phase_counts
      touch_phase_frame button_phase_frame)

lemma loop_prev_pos_explicit:
  "prev_pos (fst (loop s i)) =
     prev_pos s + sgn (encoder i - prev_pos s) * (4 * (\<bar>encoder i - prev_pos s\<bar> div 4))"
  unfolding loop_prev_pos [of s i] loop_steps
  by (cases "encoder i - prev_pos s" "0::int" rule: linorder_cases) simp_all

lemma loop_remainder:
  "encoder i - prev_pos (fst (loop s i)) =
     sgn (encoder i - prev_pos s) * (\<bar>encoder i - prev_pos s\<bar> mod 4)"
proof -
  have "\<bar>encoder i - prev_pos s\<bar> = 4 * (\<bar>encoder i - prev_pos s\<bar> div 4) + \<bar>encoder i - prev_pos s\<bar> mod 4"
    by simp
  then show ?thesis
    unfolding loop_prev_pos_explicit
    by (cases "encoder i - prev_pos s" "0::int" rule: linorder_cases) (simp_all add: algebra_simps)
qed

lemma loop_remainder_small: "\<bar>encoder i - prev_pos (fst (loop s i))\<bar> < 4"
  unfolding loop_remainder
  by (cases "encoder i - prev_pos s" "0::int" rule: linorder_cases) (simp_all add: abs_mult)


lemma run_prev_pos:
  "prev_pos (fst (run s is)) =
     prev_pos s + 4 * (int (right_steps (snd (run s is))) - int (left_steps (snd (run s is))))"
proof (induction "is" arbitrary: s)
  case Nil
  show ?case by simp
next
  case (Cons i "is")
  show ?case
    using Cons.IH [of "fst (loop s i)"] loop_prev_pos [of s i]
    by (simp add: Let_def)
qed

lemma run_remainder_small:
  "is \<noteq> [] \<Longrightarrow> \<bar>encoder (last is) - prev_pos (fst (run s is))\<bar> < 4"
proof (induction "is" arbitrary: s)
  case Nil
  then show ?case by simp
next
  case (Cons i "is")
  show ?case
  proof (cases "is = []")
    case True
    then show ?thesis using loop_remainder_small [of i s] by (simp add: Let_def)
  next
    case False
    then show ?thesis using Cons.IH [of "fst (loop s i)"] by (simp add: Let_def)
  qed
qed

lemma run_no_drift:
  assumes "is \<noteq> []" "4 dvd (encoder (last is) - prev_pos s)"
  shows "prev_pos (fst (run s is)) = encoder (last is)"
    and "int (right_steps (snd (run s is))) - int (left_steps (snd (run s is)))
         = (encoder (last is) - prev_pos s) div 4"
proof -
  let ?n = "int (right_steps (snd (run s is))) - int (left_steps (snd (run s is)))"
  have p: "prev_pos (fst (run s is)) = prev_pos s + 4 * ?n" by (rule run_prev_pos)
  have "4 dvd (encoder (last is) - prev_pos (fst (run s is)))"
    using assms(2) unfolding p by presburger
  moreover have "\<bar>encoder (last is) - prev_pos (fst (run s is))\<bar> < 4"
    using assms(1) by (rule run_remainder_small)
  ultimately show e: "prev_pos (fst (run s is)) = encoder (last is)" by presburger
  show "?n = (encoder (last is) - prev_pos s) div 4"
    using p e by simp
qed

lemma loop_monotone:
  assumes "prev_pos s \<le> encoder i"
  shows "left_steps (snd (loop s i)) = 0" "prev_pos (fst (loop s i)) \<le> encoder i"
proof -
  show "left_steps (snd (loop s i)) = 0" using assms by (simp add: loop_steps)
  have "0 \<le> encoder i - prev_pos (fst (loop s i))"
    unfolding loop_remainder using assms
    by (cases "encoder i - prev_pos s" "0::int" rule: linorder_cases) simp_all
  then show "prev_pos (fst (loop s i)) \<le> encoder i" by simp
qed

lemma run_monotone:
  "sorted (prev_pos s # map encoder is) \<Longrightarrow> left_steps (snd (run s is)) = 0"
proof (induction "is" arbitrary: s)
  case Nil
  show ?case by simp
next
  case (Cons i "is")
  have le: "prev_pos s \<le> encoder i" using Cons.prems by simp
  have "sorted (prev_pos (fst (loop s i)) # map encoder is)"
    using Cons.prems loop_monotone(2) [OF le] by fastforce
  then have "left_steps (snd (run (fst (loop s i)) is)) = 0" by (rule Cons.IH)
  then show ?case using loop_monotone(1) [OF le] by (simp add: Let_def)
qed


lemma c_div_pos: "0 < a \<Longrightarrow> 0 < b \<Longrightarrow> c_div a b = a div b"
  by (simp add: c_div_def)

subsection \<open>Direction and number of steps\<close>

text \<open>
  C2. With \<open>delta = current - previous\<close>: a positive delta emits \<open>delta/4\<close> steps to the
  right, a negative one \<open>|delta|/4\<close> steps to the left, one emission per step in the order
  of the loop, and a zero delta emits nothing. The first step of a batch is the locked
  form when the lock is set, every other step is the tap of the arrow key. Touch and
  button add no step to the pass.
\<close>

theorem encoder_steps_by_direction:
  "(0 < encoder i - prev_pos s \<longrightarrow>
      snd (encoder_phase s i) =
        concat (map right_step
          (batch_flags (shift_lock s) (nat (c_div (encoder i - prev_pos s) 4))))
      \<and> right_steps (snd (loop s i)) = nat (c_div (encoder i - prev_pos s) 4)
      \<and> left_steps (snd (loop s i)) = 0)
   \<and> (encoder i - prev_pos s < 0 \<longrightarrow>
      snd (encoder_phase s i) =
        concat (map left_step
          (batch_flags (shift_lock s) (nat (c_div \<bar>encoder i - prev_pos s\<bar> 4))))
      \<and> left_steps (snd (loop s i)) = nat (c_div \<bar>encoder i - prev_pos s\<bar> 4)
      \<and> right_steps (snd (loop s i)) = 0)
   \<and> (encoder i - prev_pos s = 0 \<longrightarrow>
      snd (encoder_phase s i) = []
      \<and> right_steps (snd (loop s i)) = 0 \<and> left_steps (snd (loop s i)) = 0)
   \<and> length (batch_flags (shift_lock s) n) = n"
proof (cases rule: encoder_phase_cases [where s = s and i = i])
  case right
  then show ?thesis by (simp add: loop_steps c_div_pos length_batch_flags)
next
  case left
  have "\<bar>encoder i - prev_pos s\<bar> = prev_pos s - encoder i" using left(1) by simp
  with left show ?thesis by (simp add: loop_steps c_div_pos length_batch_flags)
next
  case zero
  then show ?thesis by (simp add: loop_steps length_batch_flags)
qed

theorem encoder_steps_by_direction_witness:
  "snd (encoder_phase boot (idle_input\<lparr>encoder := 9\<rparr>))
     = [Press KEY_RIGHT_ARROW, Release KEY_RIGHT_ARROW, Press KEY_RIGHT_ARROW, Release KEY_RIGHT_ARROW]
   \<and> right_steps (snd (loop boot (idle_input\<lparr>encoder := 9\<rparr>))) = 2
   \<and> snd (encoder_phase boot (idle_input\<lparr>encoder := - 5\<rparr>))
     = [Press KEY_DOWN_ARROW, Release KEY_DOWN_ARROW]
   \<and> left_steps (snd (loop boot (idle_input\<lparr>encoder := - 5\<rparr>))) = 1
   \<and> snd (encoder_phase boot idle_input) = []"
  using encoder_steps_by_direction [of "idle_input\<lparr>encoder := 9\<rparr>" boot 0]
    encoder_steps_by_direction [of "idle_input\<lparr>encoder := - 5\<rparr>" boot 0]
    encoder_steps_by_direction [of idle_input boot 0]
  by (simp add: boot_def setup_m5_def idle_input_def c_div_def batch_flags_def
      right_step_def left_step_def step_intent_def tap_def)

section \<open>The shift lock\<close>

lemma batch_concat:
  "0 < n \<Longrightarrow>
   concat (map f (batch_flags b n)) = f b @ concat (replicate (n - 1) (f False))"
  by (cases n) (simp_all add: batch_flags_def map_replicate_const)

text \<open>
  C3. With the lock set, the next step or Enter that is emitted takes its locked form
  (the character written with Shift held) and the lock is cleared by that same emission:
  a batch of two or more steps has its first step in the form the lock gives and every
  later step as a plain tap, and the lock is clear after the batch; an Enter on release
  takes the form the lock gives and leaves the lock clear. A pass that emits no step
  (fewer than four ticks) and a button section without a release leave the lock as it
  was. The last six equations spell the two forms of each emission.
\<close>

theorem shift_lock_one_shot:
  "(4 \<le> encoder i - prev_pos s \<longrightarrow>
      snd (encoder_phase s i) =
        right_step (shift_lock s)
        @ concat (replicate (nat ((encoder i - prev_pos s) div 4) - 1) (right_step False))
      \<and> \<not> shift_lock (fst (encoder_phase s i)))
   \<and> (encoder i - prev_pos s \<le> - 4 \<longrightarrow>
      snd (encoder_phase s i) =
        left_step (shift_lock s)
        @ concat (replicate (nat ((prev_pos s - encoder i) div 4) - 1) (left_step False))
      \<and> \<not> shift_lock (fst (encoder_phase s i)))
   \<and> (\<bar>encoder i - prev_pos s\<bar> < 4 \<longrightarrow>
      snd (encoder_phase s i) = []
      \<and> shift_lock (fst (encoder_phase s i)) = shift_lock s)
   \<and> (wasReleased i \<and> \<not> wasPressed i \<and> \<not> pressedFor3000 i \<and> held_ms s i < 3000 \<longrightarrow>
      snd (button_phase s i) = enter_intent (shift_lock s)
      \<and> \<not> shift_lock (fst (button_phase s i)))
   \<and> (\<not> wasReleased i \<longrightarrow> shift_lock (fst (button_phase s i)) = shift_lock s)
   \<and> right_step True = [Press KEY_LEFT_SHIFT, Write (CHR ''d''), Release KEY_LEFT_SHIFT, Draw (- 1) False]
   \<and> left_step True = [Press KEY_LEFT_SHIFT, Write (CHR ''a''), Release KEY_LEFT_SHIFT, Draw (- 1) False]
   \<and> enter_intent True = [Press KEY_LEFT_SHIFT, Write (CHR 0x0A), Release KEY_LEFT_SHIFT, Draw (- 1) False]
   \<and> right_step False = [Press KEY_RIGHT_ARROW, Release KEY_RIGHT_ARROW]
   \<and> left_step False = [Press KEY_DOWN_ARROW, Release KEY_DOWN_ARROW]
   \<and> enter_intent False = [Write (CHR 0x0A)]"
proof -
  have enc: "(4 \<le> encoder i - prev_pos s \<longrightarrow>
      snd (encoder_phase s i) =
        right_step (shift_lock s)
        @ concat (replicate (nat ((encoder i - prev_pos s) div 4) - 1) (right_step False))
      \<and> \<not> shift_lock (fst (encoder_phase s i)))
   \<and> (encoder i - prev_pos s \<le> - 4 \<longrightarrow>
      snd (encoder_phase s i) =
        left_step (shift_lock s)
        @ concat (replicate (nat ((prev_pos s - encoder i) div 4) - 1) (left_step False))
      \<and> \<not> shift_lock (fst (encoder_phase s i)))
   \<and> (\<bar>encoder i - prev_pos s\<bar> < 4 \<longrightarrow>
      snd (encoder_phase s i) = []
      \<and> shift_lock (fst (encoder_phase s i)) = shift_lock s)"
  proof (cases rule: encoder_phase_cases [where s = s and i = i])
    case right
    show ?thesis
    proof (cases "4 \<le> encoder i - prev_pos s")
      case True
      then have "0 < nat ((encoder i - prev_pos s) div 4)" by simp
      then show ?thesis using right True by (simp add: batch_concat)
    next
      case False
      then have "(encoder i - prev_pos s) div 4 = 0" using right(1) by simp
      then show ?thesis using right False by (simp add: batch_flags_def)
    qed
  next
    case left
    show ?thesis
    proof (cases "encoder i - prev_pos s \<le> - 4")
      case True
      then have "0 < nat ((prev_pos s - encoder i) div 4)" by simp
      then show ?thesis using left True by (simp add: batch_concat)
    next
      case False
      then have "(prev_pos s - encoder i) div 4 = 0" using left(1) by simp
      then show ?thesis using left False by (simp add: batch_flags_def)
    qed
  next
    case zero
    then show ?thesis by simp
  qed
  have btn: "(wasReleased i \<and> \<not> wasPressed i \<and> \<not> pressedFor3000 i \<and> held_ms s i < 3000 \<longrightarrow>
      snd (button_phase s i) = enter_intent (shift_lock s)
      \<and> \<not> shift_lock (fst (button_phase s i)))
   \<and> (\<not> wasReleased i \<longrightarrow> shift_lock (fst (button_phase s i)) = shift_lock s)"
    by (simp add: button_phase_def Let_def sendAscii_enter held_ms_def)
  have forms: "right_step True = [Press KEY_LEFT_SHIFT, Write (CHR ''d''), Release KEY_LEFT_SHIFT, Draw (- 1) False]
   \<and> left_step True = [Press KEY_LEFT_SHIFT, Write (CHR ''a''), Release KEY_LEFT_SHIFT, Draw (- 1) False]
   \<and> enter_intent True = [Press KEY_LEFT_SHIFT, Write (CHR 0x0A), Release KEY_LEFT_SHIFT, Draw (- 1) False]
   \<and> right_step False = [Press KEY_RIGHT_ARROW, Release KEY_RIGHT_ARROW]
   \<and> left_step False = [Press KEY_DOWN_ARROW, Release KEY_DOWN_ARROW]
   \<and> enter_intent False = [Write (CHR 0x0A)]"
    by (simp add: right_step_def left_step_def enter_intent_def step_intent_def shifted_def tap_def)
  from enc btn forms show ?thesis by blast
qed

theorem shift_lock_one_shot_witness:
  "snd (encoder_phase (boot\<lparr>shift_lock := True\<rparr>) (idle_input\<lparr>encoder := 8\<rparr>))
     = [Press KEY_LEFT_SHIFT, Write (CHR ''d''), Release KEY_LEFT_SHIFT, Draw (- 1) False,
        Press KEY_RIGHT_ARROW, Release KEY_RIGHT_ARROW]
   \<and> \<not> shift_lock (fst (encoder_phase (boot\<lparr>shift_lock := True\<rparr>) (idle_input\<lparr>encoder := 8\<rparr>)))
   \<and> snd (encoder_phase (boot\<lparr>shift_lock := True\<rparr>) (idle_input\<lparr>encoder := - 8\<rparr>))
     = [Press KEY_LEFT_SHIFT, Write (CHR ''a''), Release KEY_LEFT_SHIFT, Draw (- 1) False,
        Press KEY_DOWN_ARROW, Release KEY_DOWN_ARROW]
   \<and> shift_lock (fst (encoder_phase (boot\<lparr>shift_lock := True\<rparr>) (idle_input\<lparr>encoder := 3\<rparr>)))
   \<and> snd (button_phase (boot\<lparr>shift_lock := True, press_start_ms := 1000\<rparr>)
            (idle_input\<lparr>wasReleased := True, millis_release := 1200\<rparr>))
     = [Press KEY_LEFT_SHIFT, Write (CHR 0x0A), Release KEY_LEFT_SHIFT, Draw (- 1) False]
   \<and> \<not> shift_lock (fst (button_phase (boot\<lparr>shift_lock := True, press_start_ms := 1000\<rparr>)
            (idle_input\<lparr>wasReleased := True, millis_release := 1200\<rparr>)))
   \<and> shift_lock (fst (button_phase (boot\<lparr>shift_lock := True\<rparr>) idle_input))"
  using shift_lock_one_shot [of "idle_input\<lparr>encoder := 8\<rparr>" "boot\<lparr>shift_lock := True\<rparr>"]
    shift_lock_one_shot [of "idle_input\<lparr>encoder := - 8\<rparr>" "boot\<lparr>shift_lock := True\<rparr>"]
    shift_lock_one_shot [of "idle_input\<lparr>encoder := 3\<rparr>" "boot\<lparr>shift_lock := True\<rparr>"]
    shift_lock_one_shot [of "idle_input\<lparr>wasReleased := True, millis_release := 1200\<rparr>"
      "boot\<lparr>shift_lock := True, press_start_ms := 1000\<rparr>"]
    shift_lock_one_shot [of idle_input "boot\<lparr>shift_lock := True\<rparr>"]
  by (simp add: boot_def setup_m5_def idle_input_def held_ms_def)

section \<open>Remainder of the encoder delta\<close>

text \<open>
  C4. For every delta \<open>d\<close> one pass emits \<open>|d|/4\<close> steps, moves the stored position by
  four times that number towards the reading, and leaves the signed remainder of \<open>d\<close> by 4
  between the reading and the stored position. Over any sequence of passes whose last
  reading is a multiple of four ticks away from the starting position, the stored
  position ends on that reading and the steps to the right minus the steps to the left
  are exactly that distance divided by four; when the readings never decrease, no step to
  the left is emitted and the steps to the right are that number.
\<close>

theorem encoder_remainder_no_drift:
  "right_steps (snd (loop s i)) + left_steps (snd (loop s i))
     = nat (\<bar>encoder i - prev_pos s\<bar> div 4)
   \<and> prev_pos (fst (loop s i))
     = prev_pos s + sgn (encoder i - prev_pos s) * (4 * (\<bar>encoder i - prev_pos s\<bar> div 4))
   \<and> encoder i - prev_pos (fst (loop s i))
     = sgn (encoder i - prev_pos s) * (\<bar>encoder i - prev_pos s\<bar> mod 4)
   \<and> (is \<noteq> [] \<and> 4 dvd (encoder (last is) - prev_pos s) \<longrightarrow>
        prev_pos (fst (run s is)) = encoder (last is)
        \<and> int (right_steps (snd (run s is))) - int (left_steps (snd (run s is)))
          = (encoder (last is) - prev_pos s) div 4)
   \<and> (is \<noteq> [] \<and> 4 dvd (encoder (last is) - prev_pos s)
        \<and> sorted (prev_pos s # map encoder is) \<longrightarrow>
        left_steps (snd (run s is)) = 0
        \<and> int (right_steps (snd (run s is))) = (encoder (last is) - prev_pos s) div 4)"
proof -
  have a: "right_steps (snd (loop s i)) + left_steps (snd (loop s i))
     = nat (\<bar>encoder i - prev_pos s\<bar> div 4)"
    by (cases "encoder i - prev_pos s" "0::int" rule: linorder_cases) (simp_all add: loop_steps)
  have b: "is \<noteq> [] \<and> 4 dvd (encoder (last is) - prev_pos s) \<longrightarrow>
        prev_pos (fst (run s is)) = encoder (last is)
        \<and> int (right_steps (snd (run s is))) - int (left_steps (snd (run s is)))
          = (encoder (last is) - prev_pos s) div 4"
    using run_no_drift [of "is" s] by blast
  have c: "is \<noteq> [] \<and> 4 dvd (encoder (last is) - prev_pos s)
        \<and> sorted (prev_pos s # map encoder is) \<longrightarrow>
        left_steps (snd (run s is)) = 0
        \<and> int (right_steps (snd (run s is))) = (encoder (last is) - prev_pos s) div 4"
    using run_no_drift(2) [of "is" s] run_monotone [of s "is"] by auto
  show ?thesis
    using a b c loop_prev_pos_explicit [of s i] loop_remainder [of i s] by blast
qed

theorem encoder_remainder_no_drift_witness:
  "prev_pos (fst (run boot [idle_input\<lparr>encoder := 3\<rparr>, idle_input\<lparr>encoder := 6\<rparr>,
       idle_input\<lparr>encoder := 7\<rparr>, idle_input\<lparr>encoder := 12\<rparr>])) = 12
   \<and> left_steps (snd (run boot [idle_input\<lparr>encoder := 3\<rparr>, idle_input\<lparr>encoder := 6\<rparr>,
       idle_input\<lparr>encoder := 7\<rparr>, idle_input\<lparr>encoder := 12\<rparr>])) = 0
   \<and> right_steps (snd (run boot [idle_input\<lparr>encoder := 3\<rparr>, idle_input\<lparr>encoder := 6\<rparr>,
       idle_input\<lparr>encoder := 7\<rparr>, idle_input\<lparr>encoder := 12\<rparr>])) = 3
   \<and> encoder (idle_input\<lparr>encoder := 3\<rparr>)
       - prev_pos (fst (loop boot (idle_input\<lparr>encoder := 3\<rparr>))) = 3"
  using encoder_remainder_no_drift [of boot "idle_input\<lparr>encoder := 3\<rparr>"
      "[idle_input\<lparr>encoder := 3\<rparr>, idle_input\<lparr>encoder := 6\<rparr>,
        idle_input\<lparr>encoder := 7\<rparr>, idle_input\<lparr>encoder := 12\<rparr>]"]
  by (simp add: boot_def setup_m5_def idle_input_def)

section \<open>Touch actions\<close>

lemma keys_simps [simp]:
  "keys [] = []" "keys (a @ b) = keys a @ keys b"
  "keys (Draw z l # es) = keys es" "keys (Press k # es) = Press k # keys es"
  "keys (Release k # es) = Release k # keys es" "keys (Write c # es) = Write c # keys es"
  by (simp_all add: keys_def)

lemma touch_phase_no_begin:
  "touch_st i \<noteq> touch_begin \<Longrightarrow>
   touch_phase s i =
     (s\<lparr>last_touch_zone := compute_zone (touch_st i) (touch_x i) (width i)\<rparr>,
      (if compute_zone (touch_st i) (touch_x i) (width i) \<noteq> last_touch_zone s
       then [Draw (compute_zone (touch_st i) (touch_x i) (width i)) (shift_lock s)] else [])
      @ (if touch_st i = touch_end then [Draw (- 1) (shift_lock s)] else []))"
  by (cases s) (simp add: touch_phase_def Let_def)

lemma touch_phase_begin_esc:
  "touch_st i = touch_begin \<Longrightarrow> compute_zone (touch_st i) (touch_x i) (width i) = 0 \<Longrightarrow>
   touch_phase s i =
     (s\<lparr>last_touch_zone := 0\<rparr>,
      (if last_touch_zone s \<noteq> 0 then [Draw 0 (shift_lock s)] else []) @ sendEsc)"
  by (cases s) (simp add: touch_phase_def Let_def)

lemma touch_phase_begin_shift:
  "touch_st i = touch_begin \<Longrightarrow> compute_zone (touch_st i) (touch_x i) (width i) = 1 \<Longrightarrow>
   touch_phase s i =
     (s\<lparr>last_touch_zone := 1, shift_lock := \<not> shift_lock s\<rparr>,
      (if last_touch_zone s \<noteq> 1 then [Draw 1 (shift_lock s)] else [])
      @ [Draw 1 (\<not> shift_lock s)])"
  by (cases s) (simp add: touch_phase_def Let_def)

lemma button_phase_idle:
  "\<not> delete_mode_active s \<Longrightarrow> \<not> wasPressed i \<Longrightarrow> \<not> wasReleased i \<Longrightarrow>
   \<not> pressedFor3000 i \<Longrightarrow> button_phase s i = (s, [])"
  by (simp add: button_phase_def Let_def)

lemma loop_touch_only:
  assumes "encoder i = prev_pos s" "\<not> delete_mode_active s" "\<not> wasPressed i"
    "\<not> wasReleased i" "\<not> pressedFor3000 i"
  shows "loop s i = touch_phase s i"
proof -
  have e: "encoder_phase (fst (touch_phase s i)) i = (fst (touch_phase s i), [])"
    using assms(1) by (simp add: encoder_phase_zero touch_phase_frame)
  have b: "button_phase (fst (touch_phase s i)) i = (fst (touch_phase s i), [])"
    using assms by (simp add: button_phase_idle touch_phase_frame)
  show ?thesis by (simp add: loop_def Let_def e b)
qed

text \<open>A pass in which only the touch screen is active, and no touch begins.\<close>

lemma run_no_begin:
  assumes "\<forall>h \<in> set hs. touch_st h \<noteq> touch_begin \<and> encoder h = prev_pos s
             \<and> \<not> wasPressed h \<and> \<not> wasReleased h \<and> \<not> pressedFor3000 h"
    and "\<not> delete_mode_active s"
  shows "keys (snd (run s hs)) = [] \<and> shift_lock (fst (run s hs)) = shift_lock s
         \<and> prev_pos (fst (run s hs)) = prev_pos s
         \<and> \<not> delete_mode_active (fst (run s hs))"
  using assms
proof (induction hs arbitrary: s)
  case Nil
  then show ?case by simp
next
  case (Cons h hs)
  have l: "loop s h = touch_phase s h"
    using Cons.prems by (intro loop_touch_only) simp_all
  have nb: "touch_st h \<noteq> touch_begin" using Cons.prems by simp
  let ?s = "fst (loop s h)"
  have f: "prev_pos ?s = prev_pos s" "\<not> delete_mode_active ?s" "shift_lock ?s = shift_lock s"
    "keys (snd (loop s h)) = []"
    using Cons.prems(2) by (simp_all add: l touch_phase_no_begin [OF nb])
  have "keys (snd (run ?s hs)) = [] \<and> shift_lock (fst (run ?s hs)) = shift_lock ?s
         \<and> prev_pos (fst (run ?s hs)) = prev_pos ?s
         \<and> \<not> delete_mode_active (fst (run ?s hs))"
    using Cons.prems f by (intro Cons.IH) simp_all
  then show ?case using f by (simp add: Let_def)
qed

lemma run_stationary:
  assumes "\<forall>h \<in> set hs. touch_st h = touch_other
             \<and> compute_zone (touch_st h) (touch_x h) (width h) = last_touch_zone s
             \<and> encoder h = prev_pos s
             \<and> \<not> wasPressed h \<and> \<not> wasReleased h \<and> \<not> pressedFor3000 h"
    and "\<not> delete_mode_active s"
  shows "run s hs = (s, [])"
  using assms
proof (induction hs)
  case Nil
  then show ?case by simp
next
  case (Cons h hs)
  have l: "loop s h = touch_phase s h"
    using Cons.prems by (intro loop_touch_only) simp_all
  have st: "touch_st h \<noteq> touch_begin" "touch_st h \<noteq> touch_end"
    and z: "compute_zone (touch_st h) (touch_x h) (width h) = last_touch_zone s"
    using Cons.prems by auto
  have "touch_phase s h = (s, [])"
    unfolding touch_phase_no_begin [OF st(1)] using st(2) z by simp
  moreover have "run s hs = (s, [])"
  proof (rule Cons.IH)
    show "\<forall>h \<in> set hs. touch_st h = touch_other
             \<and> compute_zone (touch_st h) (touch_x h) (width h) = last_touch_zone s
             \<and> encoder h = prev_pos s
             \<and> \<not> wasPressed h \<and> \<not> wasReleased h \<and> \<not> pressedFor3000 h"
      using Cons.prems(1) by (meson list.set_intros(2))
    show "\<not> delete_mode_active s" by (rule Cons.prems(2))
  qed
  ultimately show ?case using l by (simp add: Let_def)
qed

text \<open>
  C7. On a sample whose state is \<open>touch_begin\<close>: in zone 0 the touch section sends
  exactly one Escape (a press and a release of the Escape key, no Shift) and leaves the
  lock as it was; in zone 1 it flips the lock and makes no keyboard call, only redraws.
  A sample in any other state makes no keyboard call and leaves the lock. While a touch
  is held in the zone already recorded, with the encoder and the button at rest, any
  number of passes emits nothing and changes nothing.
\<close>

theorem touch_begin_actions:
  "(touch_st i = touch_begin \<and> compute_zone (touch_st i) (touch_x i) (width i) = 0 \<longrightarrow>
      keys (snd (touch_phase s i)) = [Press KEY_ESC, Release KEY_ESC]
      \<and> escapes (snd (touch_phase s i)) = 1
      \<and> shift_lock (fst (touch_phase s i)) = shift_lock s)
   \<and> (touch_st i = touch_begin \<and> compute_zone (touch_st i) (touch_x i) (width i) = 1 \<longrightarrow>
      keys (snd (touch_phase s i)) = []
      \<and> shift_lock (fst (touch_phase s i)) = (\<not> shift_lock s))
   \<and> (touch_st i \<noteq> touch_begin \<longrightarrow>
      keys (snd (touch_phase s i)) = []
      \<and> shift_lock (fst (touch_phase s i)) = shift_lock s)
   \<and> ((\<forall>h \<in> set hs. touch_st h = touch_other
             \<and> compute_zone (touch_st h) (touch_x h) (width h) = last_touch_zone s
             \<and> encoder h = prev_pos s
             \<and> \<not> wasPressed h \<and> \<not> wasReleased h \<and> \<not> pressedFor3000 h)
        \<and> \<not> delete_mode_active s \<longrightarrow> run s hs = (s, []))"
proof -
  have a: "touch_st i = touch_begin \<and> compute_zone (touch_st i) (touch_x i) (width i) = 0 \<longrightarrow>
      keys (snd (touch_phase s i)) = [Press KEY_ESC, Release KEY_ESC]
      \<and> escapes (snd (touch_phase s i)) = 1
      \<and> shift_lock (fst (touch_phase s i)) = shift_lock s"
    by (auto simp: touch_phase_begin_esc) (simp_all add: sendEsc_def)
  have b: "touch_st i = touch_begin \<and> compute_zone (touch_st i) (touch_x i) (width i) = 1 \<longrightarrow>
      keys (snd (touch_phase s i)) = []
      \<and> shift_lock (fst (touch_phase s i)) = (\<not> shift_lock s)"
    by (auto simp: touch_phase_begin_shift)
  have c: "touch_st i \<noteq> touch_begin \<longrightarrow>
      keys (snd (touch_phase s i)) = []
      \<and> shift_lock (fst (touch_phase s i)) = shift_lock s"
    by (auto simp: touch_phase_no_begin)
  have d: "(\<forall>h \<in> set hs. touch_st h = touch_other
             \<and> compute_zone (touch_st h) (touch_x h) (width h) = last_touch_zone s
             \<and> encoder h = prev_pos s
             \<and> \<not> wasPressed h \<and> \<not> wasReleased h \<and> \<not> pressedFor3000 h)
        \<and> \<not> delete_mode_active s \<longrightarrow> run s hs = (s, [])"
    using run_stationary [of hs s] by blast
  from a b c d show ?thesis by blast
qed

theorem touch_begin_actions_witness:
  "snd (touch_phase boot (idle_input\<lparr>touch_st := touch_begin, touch_x := 10\<rparr>))
     = [Draw 0 False, Press KEY_ESC, Release KEY_ESC]
   \<and> \<not> shift_lock (fst (touch_phase boot (idle_input\<lparr>touch_st := touch_begin, touch_x := 10\<rparr>)))
   \<and> snd (touch_phase boot (idle_input\<lparr>touch_st := touch_begin, touch_x := 200\<rparr>))
     = [Draw 1 False, Draw 1 True]
   \<and> shift_lock (fst (touch_phase boot (idle_input\<lparr>touch_st := touch_begin, touch_x := 200\<rparr>)))
   \<and> \<not> shift_lock (fst (touch_phase (boot\<lparr>shift_lock := True\<rparr>)
         (idle_input\<lparr>touch_st := touch_begin, touch_x := 200\<rparr>)))
   \<and> keys (snd (touch_phase boot (idle_input\<lparr>touch_st := touch_end, touch_x := 10\<rparr>))) = []
   \<and> run (boot\<lparr>last_touch_zone := 0\<rparr>)
        [idle_input\<lparr>touch_st := touch_other, touch_x := 10\<rparr>,
         idle_input\<lparr>touch_st := touch_other, touch_x := 10\<rparr>]
      = (boot\<lparr>last_touch_zone := 0\<rparr>, [])"
  using touch_begin_actions [of "idle_input\<lparr>touch_st := touch_begin, touch_x := 10\<rparr>" boot "[]"]
    touch_begin_actions [of "idle_input\<lparr>touch_st := touch_begin, touch_x := 200\<rparr>" boot "[]"]
    touch_begin_actions [of "idle_input\<lparr>touch_st := touch_begin, touch_x := 200\<rparr>"
      "boot\<lparr>shift_lock := True\<rparr>" "[]"]
    touch_begin_actions [of "idle_input\<lparr>touch_st := touch_end, touch_x := 10\<rparr>" boot "[]"]
    touch_begin_actions [of idle_input "boot\<lparr>last_touch_zone := 0\<rparr>"
      "[idle_input\<lparr>touch_st := touch_other, touch_x := 10\<rparr>,
        idle_input\<lparr>touch_st := touch_other, touch_x := 10\<rparr>]"]
  by (simp add: boot_def setup_m5_def idle_input_def compute_zone_def c_div_def
      touch_phase_def Let_def sendEsc_def)

text \<open>
  C10. A sample that is not a \<open>touch_begin\<close> changes only the recorded zone: no Escape is
  sent, no keyboard call is made and the lock is not flipped. When the zone of such a
  sample differs from the recorded one, as when a touch slides from one half into the
  other, the only call is the redraw with the new zone. Over any number of such passes,
  with the encoder and the button at rest, there is no keyboard call and the lock is
  unchanged.
\<close>

theorem slide_between_zones:
  "(touch_st i \<noteq> touch_begin \<longrightarrow>
      fst (touch_phase s i)
        = s\<lparr>last_touch_zone := compute_zone (touch_st i) (touch_x i) (width i)\<rparr>
      \<and> keys (snd (touch_phase s i)) = []
      \<and> escapes (snd (touch_phase s i)) = 0)
   \<and> (touch_st i = touch_other
        \<and> compute_zone (touch_st i) (touch_x i) (width i) \<noteq> last_touch_zone s \<longrightarrow>
      snd (touch_phase s i)
        = [Draw (compute_zone (touch_st i) (touch_x i) (width i)) (shift_lock s)])
   \<and> ((\<forall>h \<in> set hs. touch_st h \<noteq> touch_begin \<and> encoder h = prev_pos s
             \<and> \<not> wasPressed h \<and> \<not> wasReleased h \<and> \<not> pressedFor3000 h)
        \<and> \<not> delete_mode_active s \<longrightarrow>
      keys (snd (run s hs)) = [] \<and> shift_lock (fst (run s hs)) = shift_lock s)"
proof -
  have a: "touch_st i \<noteq> touch_begin \<longrightarrow>
      fst (touch_phase s i)
        = s\<lparr>last_touch_zone := compute_zone (touch_st i) (touch_x i) (width i)\<rparr>
      \<and> keys (snd (touch_phase s i)) = []
      \<and> escapes (snd (touch_phase s i)) = 0"
    by (auto simp: touch_phase_no_begin)
  have b: "touch_st i = touch_other
        \<and> compute_zone (touch_st i) (touch_x i) (width i) \<noteq> last_touch_zone s \<longrightarrow>
      snd (touch_phase s i)
        = [Draw (compute_zone (touch_st i) (touch_x i) (width i)) (shift_lock s)]"
    by (auto simp: touch_phase_no_begin)
  have c: "(\<forall>h \<in> set hs. touch_st h \<noteq> touch_begin \<and> encoder h = prev_pos s
             \<and> \<not> wasPressed h \<and> \<not> wasReleased h \<and> \<not> pressedFor3000 h)
        \<and> \<not> delete_mode_active s \<longrightarrow>
      keys (snd (run s hs)) = [] \<and> shift_lock (fst (run s hs)) = shift_lock s"
    using run_no_begin [of hs s] by blast
  from a b c show ?thesis by blast
qed

theorem slide_between_zones_witness:
  "run boot
     [idle_input\<lparr>touch_st := touch_begin, touch_x := 200\<rparr>,
      idle_input\<lparr>touch_st := touch_other, touch_x := 200\<rparr>,
      idle_input\<lparr>touch_st := touch_other, touch_x := 10\<rparr>,
      idle_input\<lparr>touch_st := touch_other, touch_x := 200\<rparr>,
      idle_input\<lparr>touch_st := touch_end, touch_x := 200\<rparr>]
   = (boot\<lparr>shift_lock := True, last_touch_zone := 1\<rparr>,
      [Draw 1 False, Draw 1 True, Draw 0 True, Draw 1 True, Draw (- 1) True])
   \<and> keys (snd (run (boot\<lparr>shift_lock := True, last_touch_zone := 1\<rparr>)
       [idle_input\<lparr>touch_st := touch_other, touch_x := 10\<rparr>,
        idle_input\<lparr>touch_st := touch_other, touch_x := 200\<rparr>])) = []
   \<and> shift_lock (fst (run (boot\<lparr>shift_lock := True, last_touch_zone := 1\<rparr>)
       [idle_input\<lparr>touch_st := touch_other, touch_x := 10\<rparr>,
        idle_input\<lparr>touch_st := touch_other, touch_x := 200\<rparr>]))"
proof -
  have r: "run boot
     [idle_input\<lparr>touch_st := touch_begin, touch_x := 200\<rparr>,
      idle_input\<lparr>touch_st := touch_other, touch_x := 200\<rparr>,
      idle_input\<lparr>touch_st := touch_other, touch_x := 10\<rparr>,
      idle_input\<lparr>touch_st := touch_other, touch_x := 200\<rparr>,
      idle_input\<lparr>touch_st := touch_end, touch_x := 200\<rparr>]
   = (boot\<lparr>shift_lock := True, last_touch_zone := 1\<rparr>,
      [Draw 1 False, Draw 1 True, Draw 0 True, Draw 1 True, Draw (- 1) True])"
    by code_simp
  show ?thesis
    using r slide_between_zones [of "idle_input\<lparr>touch_st := touch_other, touch_x := 10\<rparr>"
      "boot\<lparr>shift_lock := True, last_touch_zone := 1\<rparr>"
      "[idle_input\<lparr>touch_st := touch_other, touch_x := 10\<rparr>,
        idle_input\<lparr>touch_st := touch_other, touch_x := 200\<rparr>]"]
    by (simp add: boot_def setup_m5_def idle_input_def)
qed

section \<open>Order of one pass\<close>

lemma channels_append [simp]: "channels (a @ b) = channels a @ channels b"
  by (induction a) (simp_all split: option.splits)

lemma channels_touch: "set (channels (snd (touch_phase s i))) \<subseteq> {Touch}"
  by (simp add: touch_phase_def Let_def sendEsc_def)

lemma channels_batch:
  "set (channels (concat (map right_step fs))) \<subseteq> {Encoder}"
  "set (channels (concat (map left_step fs))) \<subseteq> {Encoder}"
  by (induction fs)
    (simp_all add: right_step_def left_step_def step_intent_def shifted_def tap_def)

lemma channels_encoder: "set (channels (snd (encoder_phase s i))) \<subseteq> {Encoder}"
  by (cases rule: encoder_phase_cases [where s = s and i = i]) (simp_all add: channels_batch)

lemma channels_button: "set (channels (snd (button_phase s i))) \<subseteq> {Button}"
  by (simp add: button_phase_def Let_def sendAscii_enter sendDelete_def enter_intent_def
      shifted_def)

lemma sorted_one_channel: "set cs \<subseteq> {c} \<Longrightarrow> sorted (map f cs)"
  by (induction cs) auto

text \<open>
  C1 as worded fails. The order encoder, touch, button is not the order of \<open>loop\<close>: a
  touch that begins in zone 0 in the pass in which the counter has moved by four ticks
  sends Escape before the step, and a touch that begins in zone 1 in such a pass flips
  the lock before the step, which then takes its locked form; in the order encoder,
  touch, button the step would come first and be a plain tap.
\<close>

theorem loop_encoder_first_counterexample:
  "snd (loop boot (idle_input\<lparr>touch_st := touch_begin, touch_x := 10, encoder := 4\<rparr>))
     = [Draw 0 False, Press KEY_ESC, Release KEY_ESC, Press KEY_RIGHT_ARROW, Release KEY_RIGHT_ARROW]
   \<and> \<not> sorted (map spec_order (channels
        (snd (loop boot (idle_input\<lparr>touch_st := touch_begin, touch_x := 10, encoder := 4\<rparr>)))))
   \<and> snd (loop boot (idle_input\<lparr>touch_st := touch_begin, touch_x := 10, encoder := 4\<rparr>))
     \<noteq> snd (loop_encoder_first boot (idle_input\<lparr>touch_st := touch_begin, touch_x := 10, encoder := 4\<rparr>))
   \<and> snd (loop boot (idle_input\<lparr>touch_st := touch_begin, touch_x := 200, encoder := 4\<rparr>))
     = [Draw 1 False, Draw 1 True,
        Press KEY_LEFT_SHIFT, Write (CHR ''d''), Release KEY_LEFT_SHIFT, Draw (- 1) False]
   \<and> snd (loop_encoder_first boot (idle_input\<lparr>touch_st := touch_begin, touch_x := 200, encoder := 4\<rparr>))
     = [Press KEY_RIGHT_ARROW, Release KEY_RIGHT_ARROW, Draw 1 False, Draw 1 True]"
  by code_simp

text \<open>
  C1, as the code has it. In every pass the emissions of the touch screen come first,
  then those of the encoder, then those of the button. The calls of the pass are those
  of the touch section, then those of the encoder section run on the state the touch
  section leaves, then those of the button section run on the state the encoder section
  leaves, with nothing added, removed or moved.
\<close>

theorem loop_order_touch_encoder_button:
  "sorted (map code_order (channels (snd (loop s i))))
   \<and> snd (loop s i)
     = snd (touch_phase s i)
       @ snd (encoder_phase (fst (touch_phase s i)) i)
       @ snd (button_phase (fst (encoder_phase (fst (touch_phase s i)) i)) i)
   \<and> fst (loop s i) = fst (button_phase (fst (encoder_phase (fst (touch_phase s i)) i)) i)"
proof -
  let ?t = "channels (snd (touch_phase s i))"
  let ?e = "channels (snd (encoder_phase (fst (touch_phase s i)) i))"
  let ?b = "channels (snd (button_phase (fst (encoder_phase (fst (touch_phase s i)) i)) i))"
  have t: "set ?t \<subseteq> {Touch}" by (rule channels_touch)
  have e: "set ?e \<subseteq> {Encoder}" by (rule channels_encoder)
  have b: "set ?b \<subseteq> {Button}" by (rule channels_button)
  have tl: "\<forall>x \<in> set ?t. \<forall>y \<in> set ?e \<union> set ?b. code_order x \<le> code_order y"
    using t e b by fastforce
  have el: "\<forall>x \<in> set ?e. \<forall>y \<in> set ?b. code_order x \<le> code_order y"
    using e b by fastforce
  have "sorted (map code_order (?t @ ?e @ ?b))"
    using tl el sorted_one_channel [OF t, of code_order] sorted_one_channel [OF e, of code_order]
      sorted_one_channel [OF b, of code_order]
    by (auto simp: sorted_append)
  then show ?thesis by (simp add: loop_def Let_def)
qed

section \<open>The button\<close>

subsection \<open>The button section case by case\<close>


lemma button_phase_release:
  "\<not> delete_mode_active s \<Longrightarrow> release_edge i \<Longrightarrow>
   button_phase s i =
     (if held_ms s i < 3000
      then (s\<lparr>shift_lock := False, press_start_ms := 0\<rparr>, enter_intent (shift_lock s))
      else (s\<lparr>press_start_ms := 0\<rparr>, []))"
  by (simp add: button_phase_def Let_def release_edge_def sendAscii_enter)


lemma button_phase_repeat:
  "delete_mode_active s \<Longrightarrow> \<not> wasReleased i \<Longrightarrow>
   button_phase s i =
     (if 500 \<le> millis_now i - last_delete_ms s
      then ((if wasPressed i then s\<lparr>press_start_ms := millis_press i\<rparr> else s)
              \<lparr>last_delete_ms := millis_now i\<rparr>, sendDelete)
      else ((if wasPressed i then s\<lparr>press_start_ms := millis_press i\<rparr> else s), []))"
  by (simp add: button_phase_def Let_def)

lemma button_phase_stop:
  "delete_mode_active s \<Longrightarrow> release_edge i \<Longrightarrow>
   button_phase s i =
     (if held_ms s i < 3000
      then (s\<lparr>delete_mode_active := False, last_delete_ms := 0,
              shift_lock := False, press_start_ms := 0\<rparr>, enter_intent (shift_lock s))
      else (s\<lparr>delete_mode_active := False, last_delete_ms := 0, press_start_ms := 0\<rparr>, []))"
  by (simp add: button_phase_def Let_def release_edge_def sendAscii_enter held_ms_def)

lemma button_phase_vars:
  assumes "button_vars s' = button_vars s"
  shows "button_vars (fst (button_phase s' i)) = button_vars (fst (button_phase s i))"
    and "enters (snd (button_phase s' i)) = enters (snd (button_phase s i))"
    and "deletes (snd (button_phase s' i)) = deletes (snd (button_phase s i))"
  using assms
  by (simp_all add: button_vars_def button_phase_def Let_def sendAscii_enter held_ms_def)

lemma loop_button:
  "button_vars (fst (loop s i)) = button_vars (fst (button_phase s i))"
  "enters (snd (loop s i)) = enters (snd (button_phase s i))"
  "deletes (snd (loop s i)) = deletes (snd (button_phase s i))"
proof -
  let ?s = "fst (encoder_phase (fst (touch_phase s i)) i)"
  have v: "button_vars ?s = button_vars s"
    by (simp add: button_vars_def encoder_phase_frame touch_phase_frame)
  show "button_vars (fst (loop s i)) = button_vars (fst (button_phase s i))"
    using button_phase_vars(1) [OF v] by (simp add: loop_def Let_def)
  show "enters (snd (loop s i)) = enters (snd (button_phase s i))"
    using button_phase_vars(2) [OF v]
    by (simp add: loop_def Let_def touch_phase_counts encoder_phase_counts)
  show "deletes (snd (loop s i)) = deletes (snd (button_phase s i))"
    using button_phase_vars(3) [OF v]
    by (simp add: loop_def Let_def touch_phase_counts encoder_phase_counts)
qed


lemma loop_button_fields:
  "press_start_ms (fst (loop s i)) = press_start_ms (fst (button_phase s i))"
  "last_delete_ms (fst (loop s i)) = last_delete_ms (fst (button_phase s i))"
  "delete_mode_active (fst (loop s i)) = delete_mode_active (fst (button_phase s i))"
  using loop_button(1) [of s i] by (simp_all add: button_vars_def)



lemma loop_release:
  assumes "release_edge i"
  shows "press_start_ms (fst (loop s i)) = 0"
    and "\<not> delete_mode_active (fst (loop s i))"
    and "enters (snd (loop s i)) = (if held_ms s i < 3000 then 1 else 0)"
    and "deletes (snd (loop s i)) = 0"
  using assms
  by (cases "delete_mode_active s";
      simp add: loop_button_fields loop_button button_phase_release button_phase_stop)+


lemma loop_repeat:
  assumes "delete_mode_active s" "\<not> wasReleased i"
  shows "delete_mode_active (fst (loop s i))"
    and "enters (snd (loop s i)) = 0"
    and "deletes (snd (loop s i)) = (if 500 \<le> millis_now i - last_delete_ms s then 1 else 0)"
    and "last_delete_ms (fst (loop s i))
         = (if 500 \<le> millis_now i - last_delete_ms s then millis_now i else last_delete_ms s)"
    and "\<not> wasPressed i \<Longrightarrow> press_start_ms (fst (loop s i)) = press_start_ms s"
  using assms by (simp_all add: loop_button_fields loop_button button_phase_repeat)






subsection \<open>Short click and long press\<close>




subsection \<open>Repeat mode\<close>

lemma repeat_fire_nat:
  fixes now l :: uint32_t
  assumes "unat l \<le> unat now"
  shows "500 \<le> now - l \<longleftrightarrow> unat l + 500 \<le> unat now"
proof -
  have "l \<le> now" using assms by (simp add: word_le_nat_alt)
  then have "unat (now - l) = unat now - unat l" by (rule unat_sub)
  moreover have "unat (500 :: uint32_t) = 500" by simp
  ultimately have "500 \<le> now - l \<longleftrightarrow> 500 \<le> unat now - unat l"
    by (simp add: word_le_nat_alt)
  then show ?thesis using assms by linarith
qed

lemma run_repeat_bound:
  assumes "delete_mode_active s" and "\<forall>d \<in> set ds. \<not> wasReleased d"
    and "sorted (unat (last_delete_ms s) # map (\<lambda>d. unat (millis_now d)) ds)"
  shows "unat (last_delete_ms s) + 500 * deletes (snd (run s ds))
           \<le> unat (last_delete_ms (fst (run s ds)))
         \<and> (ds \<noteq> [] \<longrightarrow> unat (last_delete_ms (fst (run s ds))) \<le> unat (millis_now (last ds)))"
  using assms
proof (induction ds arbitrary: s)
  case Nil
  then show ?case by simp
next
  case (Cons d ds)
  let ?s = "fst (loop s d)"
  have nr: "\<not> wasReleased d" and rest: "\<forall>d \<in> set ds. \<not> wasReleased d"
    using Cons.prems(2) by simp_all
  have le: "unat (last_delete_ms s) \<le> unat (millis_now d)"
    and srt: "sorted (unat (millis_now d) # map (\<lambda>d. unat (millis_now d)) ds)"
    using Cons.prems(3) by simp_all
  note l = loop_repeat [OF Cons.prems(1) nr]
  note fire = repeat_fire_nat [OF le]
  have step: "unat (last_delete_ms s) + 500 * deletes (snd (loop s d)) \<le> unat (last_delete_ms ?s)"
    and upper: "unat (last_delete_ms ?s) \<le> unat (millis_now d)"
    using l(3,4) fire le by (simp_all split: if_splits)
  have srt': "sorted (unat (last_delete_ms ?s) # map (\<lambda>d. unat (millis_now d)) ds)"
    using srt upper by auto
  note ih = Cons.IH [OF l(1) rest srt']
  have run: "fst (run s (d # ds)) = fst (run ?s ds)"
    "deletes (snd (run s (d # ds))) = deletes (snd (loop s d)) + deletes (snd (run ?s ds))"
    by (simp_all add: Let_def)
  have a: "unat (last_delete_ms s) + 500 * deletes (snd (run s (d # ds)))
           \<le> unat (last_delete_ms (fst (run s (d # ds))))"
    unfolding run using step ih by simp
  have b: "unat (last_delete_ms (fst (run s (d # ds)))) \<le> unat (millis_now (last (d # ds)))"
  proof (cases "ds = []")
    case True
    then show ?thesis using upper by (simp add: Let_def)
  next
    case False
    then show ?thesis unfolding run using ih by simp
  qed
  from a b show ?case by simp
qed


lemma gaps_within_sorted: "gaps_within g q ts \<Longrightarrow> sorted (q # ts)"
proof (induction ts arbitrary: q)
  case Nil
  show ?case by simp
next
  case (Cons t ts)
  have "q \<le> t" and g: "gaps_within g t ts" using Cons.prems by simp_all
  have "sorted (t # ts)" using g by (rule Cons.IH)
  with \<open>q \<le> t\<close> show ?case by auto
qed

lemma run_repeat_dense:
  assumes "delete_mode_active s" and "\<forall>d \<in> set ds. \<not> wasReleased d"
    and "unat (last_delete_ms s) \<le> q" and "q < unat (last_delete_ms s) + 500"
    and "gaps_within g q (map (\<lambda>d. unat (millis_now d)) ds)"
  shows "unat (last_delete_ms (fst (run s ds)))
           \<le> unat (last_delete_ms s) + (499 + g) * deletes (snd (run s ds))
         \<and> last (q # map (\<lambda>d. unat (millis_now d)) ds)
           < unat (last_delete_ms (fst (run s ds))) + 500"
  using assms
proof (induction ds arbitrary: s q)
  case Nil
  then show ?case by simp
next
  case (Cons d ds)
  let ?s = "fst (loop s d)"
  let ?t = "unat (millis_now d)"
  have nr: "\<not> wasReleased d" and rest: "\<forall>d \<in> set ds. \<not> wasReleased d"
    using Cons.prems(2) by simp_all
  have qt: "q \<le> ?t" "?t \<le> q + g"
    and gw: "gaps_within g ?t (map (\<lambda>d. unat (millis_now d)) ds)"
    using Cons.prems(5) by simp_all
  have le: "unat (last_delete_ms s) \<le> ?t" using Cons.prems(3) qt(1) by simp
  note l = loop_repeat [OF Cons.prems(1) nr]
  note fire = repeat_fire_nat [OF le]
  have step: "unat (last_delete_ms ?s)
                \<le> unat (last_delete_ms s) + (499 + g) * deletes (snd (loop s d))"
    and lo: "unat (last_delete_ms ?s) \<le> ?t" and hi: "?t < unat (last_delete_ms ?s) + 500"
    using l(3,4) fire le qt(2) Cons.prems(4) by (simp_all split: if_splits)
  note ih = Cons.IH [OF l(1) rest lo hi gw]
  have run: "fst (run s (d # ds)) = fst (run ?s ds)"
    "deletes (snd (run s (d # ds))) = deletes (snd (loop s d)) + deletes (snd (run ?s ds))"
    by (simp_all add: Let_def)
  have "unat (last_delete_ms (fst (run ?s ds)))
          \<le> unat (last_delete_ms s) + (499 + g) * deletes (snd (loop s d))
             + (499 + g) * deletes (snd (run ?s ds))"
    using ih step by linarith
  then have a: "unat (last_delete_ms (fst (run s (d # ds))))
           \<le> unat (last_delete_ms s) + (499 + g) * deletes (snd (run s (d # ds)))"
    unfolding run by (simp add: algebra_simps)
  have b: "last (q # map (\<lambda>d. unat (millis_now d)) (d # ds))
           < unat (last_delete_ms (fst (run s (d # ds)))) + 500"
    unfolding run using ih by simp
  from a b show ?case by simp
qed

text \<open>
  The passes of repeat mode. A pass without a release emits one more Delete exactly when
  at least 500 ms have passed since the last one, and then takes the reading as the time
  of the last Delete; it emits no Enter and stays in repeat mode. Over any passes in
  repeat mode whose readings never decrease and are at most \<open>g\<close> apart, the number \<open>n\<close>
  of repeats and the time \<open>E\<close> from the first Delete to the last reading satisfy
  \<open>500 n \<le> E \<le> (499 + g) n + 499\<close>; so 1200 ms of further hold seen by passes at most
  200 ms apart give exactly two repeats. The example hold of 3000 ms plus 1200 ms emits
  three Deletes and no Enter, and nothing after the release.
\<close>

lemma repeat_mode_passes:
  "(delete_mode_active s \<and> \<not> wasReleased i \<longrightarrow>
      deletes (snd (loop s i)) = (if 500 \<le> millis_now i - last_delete_ms s then 1 else 0)
      \<and> last_delete_ms (fst (loop s i))
          = (if 500 \<le> millis_now i - last_delete_ms s then millis_now i else last_delete_ms s)
      \<and> enters (snd (loop s i)) = 0
      \<and> delete_mode_active (fst (loop s i)))
   \<and> (delete_mode_active s \<and> (\<forall>d \<in> set ds. \<not> wasReleased d) \<and> ds \<noteq> []
        \<and> gaps_within g (unat (last_delete_ms s)) (map (\<lambda>d. unat (millis_now d)) ds) \<longrightarrow>
      unat (last_delete_ms s) + 500 * deletes (snd (run s ds)) \<le> unat (millis_now (last ds))
      \<and> unat (millis_now (last ds))
          \<le> unat (last_delete_ms s) + (499 + g) * deletes (snd (run s ds)) + 499
      \<and> (g \<le> 200 \<and> unat (millis_now (last ds)) = unat (last_delete_ms s) + 1200 \<longrightarrow>
           deletes (snd (run s ds)) = 2))
   \<and> deletes (snd (run boot long_hold_example)) = 3
   \<and> enters (snd (run boot long_hold_example)) = 0
   \<and> deletes (snd (run boot (long_hold_example @ replicate 10 idle_input))) = 3
   \<and> enters (snd (run boot (long_hold_example @ replicate 10 idle_input))) = 0"
proof -
  have a: "delete_mode_active s \<and> \<not> wasReleased i \<longrightarrow>
      deletes (snd (loop s i)) = (if 500 \<le> millis_now i - last_delete_ms s then 1 else 0)
      \<and> last_delete_ms (fst (loop s i))
          = (if 500 \<le> millis_now i - last_delete_ms s then millis_now i else last_delete_ms s)
      \<and> enters (snd (loop s i)) = 0
      \<and> delete_mode_active (fst (loop s i))"
    using loop_repeat(1-4) [of s i] by blast
  have c: "deletes (snd (run boot long_hold_example)) = 3"
    "enters (snd (run boot long_hold_example)) = 0"
    "deletes (snd (run boot (long_hold_example @ replicate 10 idle_input))) = 3"
    "enters (snd (run boot (long_hold_example @ replicate 10 idle_input))) = 0"
    by code_simp+
  have d: "delete_mode_active s \<and> (\<forall>d \<in> set ds. \<not> wasReleased d) \<and> ds \<noteq> []
        \<and> gaps_within g (unat (last_delete_ms s)) (map (\<lambda>d. unat (millis_now d)) ds) \<longrightarrow>
      unat (last_delete_ms s) + 500 * deletes (snd (run s ds)) \<le> unat (millis_now (last ds))
      \<and> unat (millis_now (last ds))
          \<le> unat (last_delete_ms s) + (499 + g) * deletes (snd (run s ds)) + 499
      \<and> (g \<le> 200 \<and> unat (millis_now (last ds)) = unat (last_delete_ms s) + 1200 \<longrightarrow>
           deletes (snd (run s ds)) = 2)"
  proof (intro impI, elim conjE)
    assume dm: "delete_mode_active s" and nr: "\<forall>d \<in> set ds. \<not> wasReleased d"
      and ne: "ds \<noteq> []"
      and gw: "gaps_within g (unat (last_delete_ms s)) (map (\<lambda>d. unat (millis_now d)) ds)"
    let ?n = "deletes (snd (run s ds))"
    let ?L = "unat (last_delete_ms s)"
    let ?E = "unat (millis_now (last ds))"
    have la: "last (?L # map (\<lambda>d. unat (millis_now d)) ds) = ?E"
      using ne by (simp add: last_map)
    have up: "?L + 500 * ?n \<le> ?E"
      using run_repeat_bound [OF dm nr gaps_within_sorted [OF gw]] ne by simp
    have lo: "?E \<le> ?L + (499 + g) * ?n + 499"
      using run_repeat_dense [OF dm nr _ _ gw] la by simp
    have two: "?n = 2" if g: "g \<le> 200" and e: "?E = ?L + 1200"
    proof -
      have "?n \<le> 2" using up e by simp
      moreover have "\<not> ?n \<le> 1"
      proof
        assume "?n \<le> 1"
        then consider "?n = 0" | "?n = 1" by linarith
        then show False
        proof cases
          case 1
          then show False using lo e by simp
        next
          case 2
          then show False using lo e g by simp
        qed
      qed
      ultimately show ?thesis by simp
    qed
    from up lo two show "?L + 500 * ?n \<le> ?E \<and> ?E \<le> ?L + (499 + g) * ?n + 499
      \<and> (g \<le> 200 \<and> ?E = ?L + 1200 \<longrightarrow> ?n = 2)" by blast
  qed
  from a c d show ?thesis by blast
qed

lemma repeat_mode_passes_example:
  "deletes (snd (loop (boot\<lparr>delete_mode_active := True, press_start_ms := 1000, last_delete_ms := 4000\<rparr>)
      (idle_input\<lparr>pressedFor3000 := True, millis_now := 4499\<rparr>))) = 0
   \<and> deletes (snd (loop (boot\<lparr>delete_mode_active := True, press_start_ms := 1000, last_delete_ms := 4000\<rparr>)
      (idle_input\<lparr>pressedFor3000 := True, millis_now := 4500\<rparr>))) = 1
   \<and> last_delete_ms (fst (loop (boot\<lparr>delete_mode_active := True, press_start_ms := 1000, last_delete_ms := 4000\<rparr>)
      (idle_input\<lparr>pressedFor3000 := True, millis_now := 4500\<rparr>))) = 4500
   \<and> deletes (snd (run (boot\<lparr>delete_mode_active := True, press_start_ms := 1000, last_delete_ms := 4000\<rparr>)
      [idle_input\<lparr>pressedFor3000 := True, millis_now := 4200\<rparr>,
       idle_input\<lparr>pressedFor3000 := True, millis_now := 4400\<rparr>,
       idle_input\<lparr>pressedFor3000 := True, millis_now := 4600\<rparr>,
       idle_input\<lparr>pressedFor3000 := True, millis_now := 4800\<rparr>,
       idle_input\<lparr>pressedFor3000 := True, millis_now := 5000\<rparr>,
       idle_input\<lparr>pressedFor3000 := True, millis_now := 5200\<rparr>])) = 2"
proof -
  let ?s = "boot\<lparr>delete_mode_active := True, press_start_ms := 1000, last_delete_ms := 4000\<rparr>"
  let ?ds = "[idle_input\<lparr>pressedFor3000 := True, millis_now := 4200\<rparr>,
       idle_input\<lparr>pressedFor3000 := True, millis_now := 4400\<rparr>,
       idle_input\<lparr>pressedFor3000 := True, millis_now := 4600\<rparr>,
       idle_input\<lparr>pressedFor3000 := True, millis_now := 4800\<rparr>,
       idle_input\<lparr>pressedFor3000 := True, millis_now := 5000\<rparr>,
       idle_input\<lparr>pressedFor3000 := True, millis_now := 5200\<rparr>]"
  have pre: "delete_mode_active ?s" "\<forall>d \<in> set ?ds. \<not> wasReleased d" "?ds \<noteq> []"
    "gaps_within 200 (unat (last_delete_ms ?s)) (map (\<lambda>d. unat (millis_now d)) ?ds)"
    "unat (millis_now (last ?ds)) = unat (last_delete_ms ?s) + 1200"
    by (simp_all add: boot_def setup_m5_def idle_input_def)
  have two: "deletes (snd (run ?s ?ds)) = 2"
    using repeat_mode_passes [where s = ?s and ds = ?ds and g = 200 and i = idle_input] pre
    by blast
  show ?thesis
    using two
      repeat_mode_passes [where ds = "[]" and g = 0 and s = ?s
        and i = "idle_input\<lparr>pressedFor3000 := True, millis_now := 4499\<rparr>"]
      repeat_mode_passes [where ds = "[]" and g = 0 and s = ?s
        and i = "idle_input\<lparr>pressedFor3000 := True, millis_now := 4500\<rparr>"]
    by (simp add: boot_def setup_m5_def idle_input_def)
qed

subsection \<open>Release in repeat mode\<close>

text \<open>
  C6, the release. The comment above the button section reads "short press -> Enter,
  long press (>3s) -> repeat Delete every 0.5s while held", and the short-click test is
  guarded by \<open>!delete_mode_active\<close>. But the first test of the section has already
  cleared \<open>delete_mode_active\<close> on the same release, so the guard never holds a release
  back: for every state in repeat mode, the release sends an Enter whenever the hold
  computed from \<open>press_start_ms\<close> is under 3000 ms. In the example of the late press start
  the pass at 4000 ms sends the Delete of the long press and the release in the next
  pass sends an Enter, where the release of a long press should send nothing.
\<close>

theorem release_in_repeat_mode_sends_enter:
  "snd (button_phase (s\<lparr>delete_mode_active := True\<rparr>)
         (i\<lparr>wasPressed := False, wasReleased := True, pressedFor3000 := False\<rparr>))
     = (if held_ms s i < 3000 then enter_intent (shift_lock s) else [])
   \<and> delete_mode_active (fst (run boot (butlast late_press_start_example)))
   \<and> release_edge (last late_press_start_example)
   \<and> snd (loop (fst (run boot (butlast late_press_start_example)))
         (last late_press_start_example)) = [Write (CHR 0x0A)]
   \<and> snd (run boot late_press_start_example)
     = [Press KEY_RIGHT_ARROW, Release KEY_RIGHT_ARROW,
        Press KEY_RIGHT_ARROW, Release KEY_RIGHT_ARROW,
        Press KEY_RIGHT_ARROW, Release KEY_RIGHT_ARROW,
        Press KEY_DELETE, Release KEY_DELETE,
        Write (CHR 0x0A)]"
proof -
  let ?s = "s\<lparr>delete_mode_active := True\<rparr>"
  let ?i = "i\<lparr>wasPressed := False, wasReleased := True, pressedFor3000 := False\<rparr>"
  have dm: "delete_mode_active ?s" by simp
  have r: "release_edge ?i" by (simp add: release_edge_def)
  have h: "held_ms ?s ?i = held_ms s i" by (simp add: held_ms_def)
  have a: "snd (button_phase ?s ?i)
     = (if held_ms s i < 3000 then enter_intent (shift_lock s) else [])"
    by (simp add: button_phase_stop [OF dm r] h)
  have b: "delete_mode_active (fst (run boot (butlast late_press_start_example)))"
    "release_edge (last late_press_start_example)"
    "snd (loop (fst (run boot (butlast late_press_start_example)))
         (last late_press_start_example)) = [Write (CHR 0x0A)]"
    "snd (run boot late_press_start_example)
     = [Press KEY_RIGHT_ARROW, Release KEY_RIGHT_ARROW,
        Press KEY_RIGHT_ARROW, Release KEY_RIGHT_ARROW,
        Press KEY_RIGHT_ARROW, Release KEY_RIGHT_ARROW,
        Press KEY_DELETE, Release KEY_DELETE,
        Write (CHR 0x0A)]"
    by code_simp+
  from a b show ?thesis by blast
qed

subsection \<open>Release without a recorded press\<close>

text \<open>
  C9. With no press start recorded (\<open>press_start_ms\<close> is 0, as after \<open>setup()\<close> and after
  every release) the hold computed at a release is 0, whatever \<open>millis()\<close> reads. Outside
  repeat mode such a release is therefore handled as a short click: the button section
  sends Enter in the form the lock gives, and the pass goes on as usual.
\<close>

theorem release_without_press_start:
  "(press_start_ms s = 0 \<longrightarrow> held_ms s i = 0)
   \<and> (press_start_ms s = 0 \<and> \<not> delete_mode_active s \<and> release_edge i \<longrightarrow>
        button_phase s i = (s\<lparr>shift_lock := False\<rparr>, enter_intent (shift_lock s))
        \<and> enters (snd (loop s i)) = 1 \<and> deletes (snd (loop s i)) = 0
        \<and> press_start_ms (fst (loop s i)) = 0)"
proof -
  have a: "press_start_ms s = 0 \<longrightarrow> held_ms s i = 0" by (simp add: held_ms_def)
  have b: "press_start_ms s = 0 \<and> \<not> delete_mode_active s \<and> release_edge i \<longrightarrow>
        button_phase s i = (s\<lparr>shift_lock := False\<rparr>, enter_intent (shift_lock s))
        \<and> enters (snd (loop s i)) = 1 \<and> deletes (snd (loop s i)) = 0
        \<and> press_start_ms (fst (loop s i)) = 0"
  proof (intro impI, elim conjE)
    assume z: "press_start_ms s = 0" and dm: "\<not> delete_mode_active s" and r: "release_edge i"
    have h: "held_ms s i = 0" using z by (simp add: held_ms_def)
    have e: "s\<lparr>shift_lock := False, press_start_ms := 0\<rparr> = s\<lparr>shift_lock := False\<rparr>"
      using z by (cases s) simp
    show "button_phase s i = (s\<lparr>shift_lock := False\<rparr>, enter_intent (shift_lock s))
        \<and> enters (snd (loop s i)) = 1 \<and> deletes (snd (loop s i)) = 0
        \<and> press_start_ms (fst (loop s i)) = 0"
      using loop_release [OF r, of s] by (simp add: button_phase_release [OF dm r] h e)
  qed
  from a b show ?thesis by blast
qed

theorem release_without_press_start_witness:
  "held_ms boot (idle_input\<lparr>wasReleased := True, millis_release := 777\<rparr>) = 0
   \<and> button_phase boot (idle_input\<lparr>wasReleased := True, millis_release := 777\<rparr>)
      = (boot, [Write (CHR 0x0A)])
   \<and> enters (snd (loop boot (idle_input\<lparr>wasReleased := True, millis_release := 777\<rparr>))) = 1"
  using release_without_press_start [of boot "idle_input\<lparr>wasReleased := True, millis_release := 777\<rparr>"]
  by (simp add: boot_def setup_m5_def idle_input_def release_edge_def enter_intent_def)

end
